theory Spec2Isabelle
  imports Main "HOL-Library.Multiset" "HOL-Library.Sublist"
begin
section \<open>Python values on the queues\<close>

text \<open>
  The two queues of the notebook carry Python objects. Only two kinds occur: the integers
  of \<^verbatim>\<open>number_range\<close> and the two byte-string flags. An exception that leaves a
  function is a value of \<open>error\<close>.
\<close>

datatype pyobj = Num int | Bytes string

datatype error = ValueError | TypeError

text \<open>
  Python's \<^verbatim>\<open>==\<close> on these objects: an \<^verbatim>\<open>int\<close> never equals a \<^verbatim>\<open>bytes\<close>
  object, two integers are compared by their number, two byte strings by their bytes.
\<close>

fun py_eq :: "pyobj \<Rightarrow> pyobj \<Rightarrow> bool" where
  "py_eq (Num a) (Num b) = (a = b)"
| "py_eq (Bytes a) (Bytes b) = (a = b)"
| "py_eq (Num a) (Bytes b) = False"
| "py_eq (Bytes a) (Num b) = False"

definition FLAG_ALL_DONE :: pyobj where
  "FLAG_ALL_DONE = Bytes ''WORK_FINISHED''"

definition FLAG_WORKER_FINISHED_PROCESSING :: pyobj where
  "FLAG_WORKER_FINISHED_PROCESSING = Bytes ''WORKER_FINISHED_PROCESSING''"

section \<open>The primality test\<close>

text \<open>
  \<^verbatim>\<open>int(math.sqrt(n))\<close>. \<^verbatim>\<open>math.sqrt\<close> raises \<^verbatim>\<open>ValueError\<close> on a negative
  argument. On a non-negative one it returns the double nearest to the square root, which
  \<^verbatim>\<open>int\<close> truncates; for \<open>n < 2^52\<close> (every range of the notebook is far below)
  that is the integer square root, and \<open>isqrt\<close> computes it, two bits at a time. Beyond
  the precision of a double (where the truncated double can differ from the integer square
  root, and \<^verbatim>\<open>math.sqrt\<close> raises \<^verbatim>\<open>OverflowError\<close> from \<open>2^1024\<close> on) the model
  keeps the integer square root.
\<close>

definition isqrt_round :: "int \<Rightarrow> int \<Rightarrow> int" where
  "isqrt_round n r = (if (r + 1) * (r + 1) \<le> n then r + 1 else r)"

function isqrt :: "int \<Rightarrow> int" where
  "isqrt n = (if n < 4 then (if n \<le> 0 then 0 else 1)
     else isqrt_round n (2 * isqrt (n div 4)))"
  by pat_completeness auto

termination
  by (relation "measure nat") auto

declare isqrt.simps [simp del]

definition math_sqrt_int :: "int \<Rightarrow> error + int" where
  "math_sqrt_int n = (if n < 0 then Inl ValueError else Inr (isqrt n))"

text \<open>
  The serial cell:
  \<^verbatim>\<open>
  def check_prime(n):
      if n % 2 == 0:
          return False
      for i in range(3, int(math.sqrt(n)) + 1, 2):
          if n % i == 0:
              return False
      return True
  \<close>
  \<open>check_prime_loop n i stop\<close> is the \<^verbatim>\<open>for\<close> loop from the index \<open>i\<close> on.
\<close>

function check_prime_loop :: "int \<Rightarrow> int \<Rightarrow> int \<Rightarrow> bool" where
  "check_prime_loop n i stop =
     (if i < stop then (if n mod i = 0 then False else check_prime_loop n (i + 2) stop)
      else True)"
  by pat_completeness auto

termination
  by (relation "measure (\<lambda>(n, i, stop). nat (stop - i))") auto

declare check_prime_loop.simps [simp del]

definition check_prime :: "int \<Rightarrow> error + bool" where
  "check_prime n =
     (if n mod 2 = 0 then Inr False
      else case math_sqrt_int n of
        Inl e \<Rightarrow> Inl e
      | Inr r \<Rightarrow> Inr (check_prime_loop n 3 (r + 1)))"

text \<open>
  The serial driver: \<^verbatim>\<open>for possible_prime in number_range: if check_prime(...):
  primes.append(...)\<close>. \<^verbatim>\<open>range(lo, hi)\<close> is the list \<open>[lo..hi - 1]\<close>. An exception
  raised by \<open>check_prime\<close> ends the cell.
\<close>

definition number_range :: "int \<Rightarrow> int \<Rightarrow> int list" where
  "number_range lo hi = [lo..hi - 1]"

fun serial_primes :: "int list \<Rightarrow> int list \<Rightarrow> error + int list" where
  "serial_primes primes [] = Inr primes"
| "serial_primes primes (possible_prime # rest) =
     (case check_prime possible_prime of
        Inl e \<Rightarrow> Inl e
      | Inr True \<Rightarrow> serial_primes (primes @ [possible_prime]) rest
      | Inr False \<Rightarrow> serial_primes primes rest)"

section \<open>The queue worker\<close>

text \<open>
  \<^verbatim>\<open>
  def check_prime(possible_primes_queue, definite_primes_queue):
      while True:
          n = possible_primes_queue.get()
          if n == FLAG_ALL_DONE:
              definite_primes_queue.put(FLAG_WORKER_FINISHED_PROCESSING)
              break
          else:
              if n % 2 == 0:
                  continue
              for i in range(3, int(math.sqrt(n)) + 1, 2):
                  if n % i == 0:
                      break
              else:
                  definite_primes_queue.put(n)
  \<close>
  A worker is waiting in \<^verbatim>\<open>get\<close>, holds the object it got, has left the loop, or has
  died of an exception. \<open>worker_loop\<close> is the inner \<^verbatim>\<open>for ... else\<close>: it ends by
  \<^verbatim>\<open>break\<close> or by exhausting the range, and only then the \<^verbatim>\<open>else\<close> suite runs.
  \<open>worker_body x\<close> is one pass of the \<^verbatim>\<open>while\<close> body after \<^verbatim>\<open>get\<close> returned \<open>x\<close>:
  the objects it puts on \<^verbatim>\<open>definite_primes_queue\<close> and the worker's next state. A byte
  string other than the flag fails in \<^verbatim>\<open>n % 2\<close> with \<^verbatim>\<open>TypeError\<close>.
\<close>

datatype wstate = Waiting | Got pyobj | Terminated | Crashed error

datatype loop_exit = Broke | Exhausted

function worker_loop :: "int \<Rightarrow> int \<Rightarrow> int \<Rightarrow> loop_exit" where
  "worker_loop n i stop =
     (if i < stop then (if n mod i = 0 then Broke else worker_loop n (i + 2) stop)
      else Exhausted)"
  by pat_completeness auto

termination
  by (relation "measure (\<lambda>(n, i, stop). nat (stop - i))") auto

declare worker_loop.simps [simp del]

definition worker_body :: "pyobj \<Rightarrow> pyobj list \<times> wstate" where
  "worker_body x =
     (if py_eq x FLAG_ALL_DONE then ([FLAG_WORKER_FINISHED_PROCESSING], Terminated)
      else case x of
        Bytes b \<Rightarrow> ([], Crashed TypeError)
      | Num n \<Rightarrow>
          if n mod 2 = 0 then ([], Waiting)
          else (case math_sqrt_int n of
                  Inl e \<Rightarrow> ([], Crashed e)
                | Inr r \<Rightarrow>
                    (case worker_loop n 3 (r + 1) of
                       Broke \<Rightarrow> ([], Waiting)
                     | Exhausted \<Rightarrow> ([x], Waiting))))"

section \<open>The coordinator and the pipeline\<close>

text \<open>
  The last cell creates the two queues, starts \<^verbatim>\<open>NBR_PROCESSES\<close> workers, puts the
  range and then one \<^verbatim>\<open>FLAG_ALL_DONE\<close> per worker on \<^verbatim>\<open>possible_primes_queue\<close>, and
  drains \<^verbatim>\<open>definite_primes_queue\<close> until it has counted \<^verbatim>\<open>NBR_PROCESSES\<close> finished
  workers. The coordinator's program counter is a \<open>cphase\<close>: the candidates still to
  put, the flags still to put, the drain loop, the end of the cell, or the failed
  \<^verbatim>\<open>assert\<close>.
\<close>

datatype cphase =
    PutCandidates "int list"
  | PutFlags nat
  | Draining
  | Complete
  | AssertionFailed

text \<open>
  The state of the whole pipeline. The queues are FIFO lists (head = next object that
  \<^verbatim>\<open>get\<close> returns). \<open>put_history\<close> is a history variable: every object ever put on
  \<^verbatim>\<open>possible_primes_queue\<close>, in order; no transition reads it.
\<close>

record pipeline =
  possible_primes_queue :: "pyobj list"
  definite_primes_queue :: "pyobj list"
  workers :: "wstate list"
  coordinator :: cphase
  processors_indicating_they_have_finished :: nat
  primes :: "pyobj list"
  NBR_PROCESSES :: nat
  put_history :: "pyobj list"

text \<open>
  The set-up, up to \<^verbatim>\<open>p.start()\<close>: both queues are created first, then
  \<^verbatim>\<open>Pool(processes=NBR_PROCESSES)\<close>, which raises \<^verbatim>\<open>ValueError\<close> for a number of
  processes below one, then the workers are started. The range and the number of
  processes are the two variables the notebook asks its reader to change.
\<close>

definition start_pipeline :: "int \<Rightarrow> int \<Rightarrow> int \<Rightarrow> error + pipeline" where
  "start_pipeline lo hi nbr =
     (if nbr < 1 then Inl ValueError
      else Inr \<lparr> possible_primes_queue = [],
                 definite_primes_queue = [],
                 workers = replicate (nat nbr) Waiting,
                 coordinator = PutCandidates (number_range lo hi),
                 processors_indicating_they_have_finished = 0,
                 primes = [],
                 NBR_PROCESSES = nat nbr,
                 put_history = [] \<rparr>)"

text \<open>
  One step of the coordinator; \<open>None\<close> when it cannot move (it blocks in \<^verbatim>\<open>get\<close> on an
  empty queue, or the cell has ended).
\<close>

definition coordinator_step :: "pipeline \<Rightarrow> pipeline option" where
  "coordinator_step s =
     (case coordinator s of
        PutCandidates [] \<Rightarrow> Some (s\<lparr>coordinator := PutFlags (NBR_PROCESSES s)\<rparr>)
      | PutCandidates (possible_prime # rest) \<Rightarrow>
          Some (s\<lparr>possible_primes_queue := possible_primes_queue s @ [Num possible_prime],
                  put_history := put_history s @ [Num possible_prime],
                  coordinator := PutCandidates rest\<rparr>)
      | PutFlags 0 \<Rightarrow>
          Some (s\<lparr>processors_indicating_they_have_finished := 0, coordinator := Draining\<rparr>)
      | PutFlags (Suc k) \<Rightarrow>
          Some (s\<lparr>possible_primes_queue := possible_primes_queue s @ [FLAG_ALL_DONE],
                  put_history := put_history s @ [FLAG_ALL_DONE],
                  coordinator := PutFlags k\<rparr>)
      | Draining \<Rightarrow>
          (case definite_primes_queue s of
             [] \<Rightarrow> None
           | new_result # rest \<Rightarrow>
               if py_eq new_result FLAG_WORKER_FINISHED_PROCESSING then
                 (let c = processors_indicating_they_have_finished s + 1 in
                  if c = NBR_PROCESSES s then
                    Some (s\<lparr>definite_primes_queue := rest,
                            processors_indicating_they_have_finished := c,
                            coordinator :=
                              (if c = NBR_PROCESSES s then Complete else AssertionFailed)\<rparr>)
                  else
                    Some (s\<lparr>definite_primes_queue := rest,
                            processors_indicating_they_have_finished := c\<rparr>))
               else
                 Some (s\<lparr>definite_primes_queue := rest, primes := primes s @ [new_result]\<rparr>))
      | Complete \<Rightarrow> None
      | AssertionFailed \<Rightarrow> None)"

text \<open>
  The processes interleave. An action is one atomic step of one process: a step of the
  coordinator, a worker's \<^verbatim>\<open>get\<close> (enabled only on a non-empty queue), or the rest of a
  worker's loop body, whose only shared effect is the \<^verbatim>\<open>put\<close> that ends it.
\<close>

datatype action = Coordinator | WorkerGet nat | WorkerRun nat

fun fire :: "action \<Rightarrow> pipeline \<Rightarrow> pipeline option" where
  "fire Coordinator s = coordinator_step s"
| "fire (WorkerGet i) s =
     (if i < length (workers s) then
        (case (workers s ! i, possible_primes_queue s) of
           (Waiting, n # rest) \<Rightarrow>
             Some (s\<lparr>possible_primes_queue := rest, workers := (workers s)[i := Got n]\<rparr>)
         | _ \<Rightarrow> None)
      else None)"
| "fire (WorkerRun i) s =
     (if i < length (workers s) then
        (case workers s ! i of
           Got n \<Rightarrow>
             Some (s\<lparr>definite_primes_queue := definite_primes_queue s @ fst (worker_body n),
                     workers := (workers s)[i := snd (worker_body n)]\<rparr>)
         | _ \<Rightarrow> None)
      else None)"

text \<open>A schedule is a list of actions; it runs as long as each action is enabled.\<close>

fun run :: "action list \<Rightarrow> pipeline \<Rightarrow> pipeline option" where
  "run [] s = Some s"
| "run (a # as) s = (case fire a s of None \<Rightarrow> None | Some s' \<Rightarrow> run as s')"

text \<open>
  The actions a state offers, and the states in which nothing can move any more.
\<close>

definition all_actions :: "pipeline \<Rightarrow> action list" where
  "all_actions s =
     Coordinator # map WorkerGet [0..<length (workers s)] @ map WorkerRun [0..<length (workers s)]"

definition quiescent :: "pipeline \<Rightarrow> bool" where
  "quiescent s = list_all (\<lambda>a. fire a s = None) (all_actions s)"

definition crashed :: "wstate \<Rightarrow> bool" where
  "crashed w = (case w of Crashed e \<Rightarrow> True | _ \<Rightarrow> False)"

text \<open>
  The cell run on the range \<open>[lo, hi)\<close> with \<open>nbr\<close> processes under a schedule: the state
  it reaches, or \<open>None\<close> when the set-up raises or the schedule asks for a step that is
  not enabled.
\<close>

definition pipeline_run :: "int \<Rightarrow> int \<Rightarrow> int \<Rightarrow> action list \<Rightarrow> pipeline option" where
  "pipeline_run lo hi nbr as =
     (case start_pipeline lo hi nbr of Inl e \<Rightarrow> None | Inr s0 \<Rightarrow> run as s0)"

text \<open>
  The outcomes of the pipeline on \<open>[lo, hi)\<close> with \<open>nbr\<close> workers: the states in which
  the cell has ended, over all schedules, and what the cell has then computed (the set of
  collected objects and the count of finished workers).
\<close>

definition complete_states :: "int \<Rightarrow> int \<Rightarrow> int \<Rightarrow> pipeline set" where
  "complete_states lo hi nbr =
     {s. \<exists>as. pipeline_run lo hi nbr as = Some s \<and> coordinator s = Complete}"

definition results :: "int \<Rightarrow> int \<Rightarrow> int \<Rightarrow> (pyobj set \<times> nat) set" where
  "results lo hi nbr =
     (\<lambda>s. (set (primes s), processors_indicating_they_have_finished s)) ` complete_states lo hi nbr"

section \<open>Primality and trial division, as the specification words them\<close>

definition is_prime :: "int \<Rightarrow> bool" where
  "is_prime n = (1 < n \<and> list_all (\<lambda>d. \<not> d dvd n) [2..n - 1])"



section \<open>The invariant of the pipeline\<close>

text \<open>
  Everything the coordinator puts on \<^verbatim>\<open>possible_primes_queue\<close> in the course of a run,
  and what a coordinator in a given phase has still to put.
\<close>

definition plan :: "int \<Rightarrow> int \<Rightarrow> nat \<Rightarrow> pyobj list" where
  "plan lo hi W = map Num (number_range lo hi) @ replicate W FLAG_ALL_DONE"

fun pending :: "nat \<Rightarrow> cphase \<Rightarrow> pyobj list" where
  "pending W (PutCandidates ns) = map Num ns @ replicate W FLAG_ALL_DONE"
| "pending W (PutFlags k) = replicate k FLAG_ALL_DONE"
| "pending W Draining = []"
| "pending W Complete = []"
| "pending W AssertionFailed = []"

text \<open>The object a worker holds between its \<^verbatim>\<open>get\<close> and the end of the loop body.\<close>

fun held :: "wstate \<Rightarrow> pyobj multiset" where
  "held (Got x) = {#x#}"
| "held Waiting = {#}"
| "held Terminated = {#}"
| "held (Crashed e) = {#}"

text \<open>
  The objects not yet processed by a worker (held, queued, or still to be put), and the
  objects that left the workers (collected, counted, or queued for the coordinator).
\<close>

definition unprocessed :: "pipeline \<Rightarrow> pyobj multiset" where
  "unprocessed s =
     sum_list (map held (workers s)) + mset (possible_primes_queue s)
       + mset (pending (NBR_PROCESSES s) (coordinator s))"

definition emitted :: "pipeline \<Rightarrow> pyobj multiset" where
  "emitted s =
     mset (primes s)
       + replicate_mset (processors_indicating_they_have_finished s) FLAG_WORKER_FINISHED_PROCESSING
       + mset (definite_primes_queue s)"

definition outputs :: "pyobj multiset \<Rightarrow> pyobj multiset" where
  "outputs M = sum_mset (image_mset (\<lambda>x. mset (fst (worker_body x))) M)"

definition crashing :: "pyobj \<Rightarrow> bool" where
  "crashing x = crashed (snd (worker_body x))"

definition tally :: "(wstate \<Rightarrow> bool) \<Rightarrow> wstate list \<Rightarrow> nat" where
  "tally P ws = sum_list (map (\<lambda>w. if P w then 1 else 0) ws)"

definition terminated :: "wstate \<Rightarrow> bool" where
  "terminated w = (w = Terminated)"

text \<open>The invariant of the pipeline started on \<open>[lo, hi)\<close> with \<open>W\<close> workers.\<close>

definition shape_inv :: "nat \<Rightarrow> pipeline \<Rightarrow> bool" where
  "shape_inv W s = (1 \<le> W \<and> NBR_PROCESSES s = W \<and> length (workers s) = W)"

definition history_inv :: "int \<Rightarrow> int \<Rightarrow> nat \<Rightarrow> pipeline \<Rightarrow> bool" where
  "history_inv lo hi W s =
     (put_history s @ pending W (coordinator s) = plan lo hi W
      \<and> suffix (possible_primes_queue s) (put_history s))"

definition phase_inv :: "nat \<Rightarrow> pipeline \<Rightarrow> bool" where
  "phase_inv W s =
     (FLAG_WORKER_FINISHED_PROCESSING \<notin> set (primes s)
      \<and> (case coordinator s of
           PutCandidates ns \<Rightarrow> processors_indicating_they_have_finished s = 0
         | PutFlags k \<Rightarrow> processors_indicating_they_have_finished s = 0
         | Draining \<Rightarrow> processors_indicating_they_have_finished s < W
         | Complete \<Rightarrow> processors_indicating_they_have_finished s = W
         | AssertionFailed \<Rightarrow> False))"

definition output_inv :: "int \<Rightarrow> int \<Rightarrow> nat \<Rightarrow> pipeline \<Rightarrow> bool" where
  "output_inv lo hi W s =
     (emitted s + outputs (unprocessed s) = outputs (mset (plan lo hi W)))"

definition flag_inv :: "nat \<Rightarrow> pipeline \<Rightarrow> bool" where
  "flag_inv W s = (count (unprocessed s) FLAG_ALL_DONE + tally terminated (workers s) = W)"

definition crash_inv :: "int \<Rightarrow> int \<Rightarrow> nat \<Rightarrow> pipeline \<Rightarrow> bool" where
  "crash_inv lo hi W s =
     (size (filter_mset crashing (unprocessed s)) + tally crashed (workers s)
        = size (filter_mset crashing (mset (plan lo hi W))))"

definition tail_inv :: "nat \<Rightarrow> pipeline \<Rightarrow> bool" where
  "tail_inv W s =
     (tally terminated (workers s) < W
      \<or> definite_primes_queue s = []
      \<or> last (definite_primes_queue s) = FLAG_WORKER_FINISHED_PROCESSING)"

definition pipeline_inv :: "int \<Rightarrow> int \<Rightarrow> nat \<Rightarrow> pipeline \<Rightarrow> bool" where
  "pipeline_inv lo hi W s =
     (shape_inv W s \<and> history_inv lo hi W s \<and> phase_inv W s \<and> output_inv lo hi W s
      \<and> flag_inv W s \<and> crash_inv lo hi W s \<and> tail_inv W s)"

text \<open>A bound on the number of steps a state can still take.\<close>

fun phase_rank :: "cphase \<Rightarrow> nat" where
  "phase_rank (PutCandidates ns) = 3"
| "phase_rank (PutFlags k) = 2"
| "phase_rank Draining = 1"
| "phase_rank Complete = 0"
| "phase_rank AssertionFailed = 0"

definition holding :: "wstate \<Rightarrow> bool" where
  "holding w = (case w of Got x \<Rightarrow> True | _ \<Rightarrow> False)"

definition steps_left :: "pipeline \<Rightarrow> nat" where
  "steps_left s =
     4 * length (pending (NBR_PROCESSES s) (coordinator s))
       + 3 * length (possible_primes_queue s)
       + 2 * tally holding (workers s)
       + length (definite_primes_queue s)
       + phase_rank (coordinator s)"

section \<open>Concrete schedules\<close>

text \<open>
  Two schedules for the range \<open>[10, 14)\<close> with two workers. In both the coordinator first
  puts the four candidates and the two flags and drains at the end. In the first, worker 0
  handles every candidate. In the second, worker 0 holds 11 while worker 1 handles 12 and
  13, so that 13 reaches the result queue before 11.
\<close>

definition schedule_in_turn :: "action list" where
  "schedule_in_turn =
     replicate 8 Coordinator
     @ concat (replicate 4 [WorkerGet 0, WorkerRun 0])
     @ [WorkerGet 0, WorkerRun 0, WorkerGet 1, WorkerRun 1]
     @ replicate 4 Coordinator"

definition schedule_overtaking :: "action list" where
  "schedule_overtaking =
     replicate 8 Coordinator
     @ [WorkerGet 0, WorkerRun 0, WorkerGet 0, WorkerGet 1, WorkerRun 1, WorkerGet 1,
        WorkerRun 1, WorkerRun 0, WorkerGet 0, WorkerRun 0, WorkerGet 1, WorkerRun 1]
     @ replicate 4 Coordinator"

text \<open>
  A state of the run on \<open>[7, 10)\<close> with three workers in which every worker holds an
  object: worker 0 the first flag, worker 1 the candidate 7, worker 2 the candidate 9.
\<close>

definition schedule_all_holding :: "action list" where
  "schedule_all_holding =
     replicate 5 Coordinator @ [WorkerGet 1, WorkerGet 0, WorkerRun 0, WorkerGet 2, WorkerGet 0]"

definition state_all_holding :: pipeline where
  "state_all_holding =
     \<lparr> possible_primes_queue = [], definite_primes_queue = [],
       workers = [Got FLAG_ALL_DONE, Got (Num 7), Got (Num 9)],
       coordinator = PutFlags 2,
       processors_indicating_they_have_finished = 0, primes = [],
       NBR_PROCESSES = 3,
       put_history = [Num 7, Num 8, Num 9, FLAG_ALL_DONE] \<rparr>"

section \<open>Auxiliary facts\<close>

subsection \<open>The integer square root and the two loops\<close>









lemma worker_loop_eq:
  "worker_loop n i stop = (if check_prime_loop n i stop then Exhausted else Broke)"
proof (induction n i stop rule: worker_loop.induct)
  case (1 n i stop)
  then show ?case
    by (simp add: worker_loop.simps [of n i stop] check_prime_loop.simps [of n i stop])
qed





lemma check_prime_even: "even n \<Longrightarrow> check_prime n = Inr False"
  by (simp add: check_prime_def even_iff_mod_2_eq_zero)




subsection \<open>One pass of the worker\<close>

lemma py_eq_iff: "py_eq a b \<longleftrightarrow> a = b"
  by (cases a; cases b) simp_all

lemma worker_body_flag:
  "worker_body FLAG_ALL_DONE = ([FLAG_WORKER_FINISHED_PROCESSING], Terminated)"
  by (simp add: worker_body_def py_eq_iff)

lemma worker_body_num:
  "worker_body (Num n) =
     (case check_prime n of
        Inl e \<Rightarrow> ([], Crashed e)
      | Inr b \<Rightarrow> (if b then [Num n] else [], Waiting))"
  by (simp add: worker_body_def check_prime_def FLAG_ALL_DONE_def worker_loop_eq
      split: sum.splits)

lemma worker_body_bytes:
  "Bytes b \<noteq> FLAG_ALL_DONE \<Longrightarrow> worker_body (Bytes b) = ([], Crashed TypeError)"
  by (simp add: worker_body_def py_eq_iff)

subsection \<open>Counting workers\<close>

lemma tally_update:
  "i < length ws \<Longrightarrow>
     tally P (ws[i := w]) + (if P (ws ! i) then 1 else 0) = tally P ws + (if P w then 1 else 0)"
proof (induction ws arbitrary: i)
  case Nil
  then show ?case by simp
next
  case (Cons a ws)
  show ?case
  proof (cases i)
    case 0
    then show ?thesis by (simp add: tally_def)
  next
    case (Suc j)
    with Cons.prems have "j < length ws" by simp
    from Cons.IH [OF this] Suc show ?thesis by (simp add: tally_def)
  qed
qed

lemma held_update:
  "i < length ws \<Longrightarrow>
     sum_list (map held (ws[i := w])) + held (ws ! i) = sum_list (map held ws) + held w"
proof (induction ws arbitrary: i)
  case Nil
  then show ?case by simp
next
  case (Cons a ws)
  show ?case
  proof (cases i)
    case 0
    then show ?thesis by simp
  next
    case (Suc j)
    with Cons.prems have "j < length ws" by simp
    from Cons.IH [OF this] Suc show ?thesis by (simp add: add.assoc)
  qed
qed

subsection \<open>The steps of the pipeline\<close>

lemma coordinator_step_elim [consumes 1, case_names put_candidate candidates_done put_flag
    flags_done collect count count_last]:
  assumes "coordinator_step s = Some s'"
  obtains
    (put_candidate) c rest where "coordinator s = PutCandidates (c # rest)"
      "s' = s\<lparr>possible_primes_queue := possible_primes_queue s @ [Num c],
               put_history := put_history s @ [Num c],
               coordinator := PutCandidates rest\<rparr>"
  | (candidates_done) "coordinator s = PutCandidates []"
      "s' = s\<lparr>coordinator := PutFlags (NBR_PROCESSES s)\<rparr>"
  | (put_flag) k where "coordinator s = PutFlags (Suc k)"
      "s' = s\<lparr>possible_primes_queue := possible_primes_queue s @ [FLAG_ALL_DONE],
               put_history := put_history s @ [FLAG_ALL_DONE],
               coordinator := PutFlags k\<rparr>"
  | (flags_done) "coordinator s = PutFlags 0"
      "s' = s\<lparr>processors_indicating_they_have_finished := 0, coordinator := Draining\<rparr>"
  | (collect) x rest where "coordinator s = Draining" "definite_primes_queue s = x # rest"
      "x \<noteq> FLAG_WORKER_FINISHED_PROCESSING"
      "s' = s\<lparr>definite_primes_queue := rest, primes := primes s @ [x]\<rparr>"
  | (count) rest where "coordinator s = Draining"
      "definite_primes_queue s = FLAG_WORKER_FINISHED_PROCESSING # rest"
      "processors_indicating_they_have_finished s + 1 \<noteq> NBR_PROCESSES s"
      "s' = s\<lparr>definite_primes_queue := rest,
               processors_indicating_they_have_finished :=
                 processors_indicating_they_have_finished s + 1\<rparr>"
  | (count_last) rest where "coordinator s = Draining"
      "definite_primes_queue s = FLAG_WORKER_FINISHED_PROCESSING # rest"
      "processors_indicating_they_have_finished s + 1 = NBR_PROCESSES s"
      "s' = s\<lparr>definite_primes_queue := rest,
               processors_indicating_they_have_finished :=
                 processors_indicating_they_have_finished s + 1,
               coordinator := Complete\<rparr>"
proof (cases "coordinator s")
  case (PutCandidates ns)
  with assms that(1,2) show thesis
    by (cases ns) (simp_all add: coordinator_step_def)
next
  case (PutFlags k)
  with assms that(3,4) show thesis
    by (cases k) (simp_all add: coordinator_step_def)
next
  case Draining
  show thesis
  proof (cases "definite_primes_queue s")
    case Nil
    with Draining assms show thesis by (simp add: coordinator_step_def)
  next
    case (Cons x rest)
    show thesis
    proof (cases "x = FLAG_WORKER_FINISHED_PROCESSING")
      case False
      with Draining Cons assms have
        "s' = s\<lparr>definite_primes_queue := rest, primes := primes s @ [x]\<rparr>"
        by (simp add: coordinator_step_def py_eq_iff)
      with Draining Cons False show thesis by (rule that(5))
    next
      case True
      show thesis
      proof (cases "processors_indicating_they_have_finished s + 1 = NBR_PROCESSES s")
        case eq: True
        with Draining Cons True assms have
          "s' = s\<lparr>definite_primes_queue := rest,
                   processors_indicating_they_have_finished :=
                     processors_indicating_they_have_finished s + 1,
                   coordinator := Complete\<rparr>"
          by (simp add: coordinator_step_def py_eq_iff Let_def)
        with Draining Cons True eq show thesis by (intro that(7)) simp_all
      next
        case ne: False
        with Draining Cons True assms have
          "s' = s\<lparr>definite_primes_queue := rest,
                   processors_indicating_they_have_finished :=
                     processors_indicating_they_have_finished s + 1\<rparr>"
          by (simp add: coordinator_step_def py_eq_iff Let_def)
        with Draining Cons True ne show thesis by (intro that(6)) simp_all
      qed
    qed
  qed
next
  case Complete
  with assms show thesis by (simp add: coordinator_step_def)
next
  case AssertionFailed
  with assms show thesis by (simp add: coordinator_step_def)
qed

lemma worker_get_elim [consumes 1, case_names get]:
  assumes "fire (WorkerGet i) s = Some s'"
  obtains x rest where "i < length (workers s)" "workers s ! i = Waiting"
    "possible_primes_queue s = x # rest"
    "s' = s\<lparr>possible_primes_queue := rest, workers := (workers s)[i := Got x]\<rparr>"
  using assms
  by (auto split: if_splits wstate.splits list.splits)

lemma worker_run_elim [consumes 1, case_names body]:
  assumes "fire (WorkerRun i) s = Some s'"
  obtains x where "i < length (workers s)" "workers s ! i = Got x"
    "s' = s\<lparr>definite_primes_queue := definite_primes_queue s @ fst (worker_body x),
             workers := (workers s)[i := snd (worker_body x)]\<rparr>"
  using assms
  by (auto split: if_splits wstate.splits)

lemma worker_body_elim [case_names flag crash discard prime]:
  obtains
    (flag) "x = FLAG_ALL_DONE"
      "worker_body x = ([FLAG_WORKER_FINISHED_PROCESSING], Terminated)"
  | (crash) e where "x \<noteq> FLAG_ALL_DONE" "worker_body x = ([], Crashed e)"
  | (discard) "x \<noteq> FLAG_ALL_DONE" "worker_body x = ([], Waiting)"
  | (prime) n where "x = Num n" "worker_body x = ([Num n], Waiting)"
proof (cases "x = FLAG_ALL_DONE")
  case True
  then show thesis using that(1) by (simp add: worker_body_flag)
next
  case False
  show thesis
  proof (cases x)
    case (Bytes b)
    with False that(2) show thesis by (simp add: worker_body_bytes)
  next
    case (Num n)
    show thesis
    proof (cases "check_prime n")
      case (Inl e)
      with Num False that(2) show thesis by (simp add: worker_body_num)
    next
      case (Inr b)
      with Num False that(3,4) show thesis by (cases b) (simp_all add: worker_body_num)
    qed
  qed
qed

lemma tally_enter:
  "i < length ws \<Longrightarrow> \<not> P (ws ! i) \<Longrightarrow>
     tally P (ws[i := w]) = tally P ws + (if P w then 1 else 0)"
  using tally_update [of i ws P w] by simp

lemma tally_leave:
  "i < length ws \<Longrightarrow> P (ws ! i) \<Longrightarrow> \<not> P w \<Longrightarrow> tally P ws = tally P (ws[i := w]) + 1"
  using tally_update [of i ws P w] by simp

lemma held_got:
  "i < length ws \<Longrightarrow> ws ! i = Waiting \<Longrightarrow>
     sum_list (map held (ws[i := Got x])) = add_mset x (sum_list (map held ws))"
  using held_update [of i ws "Got x"] by simp

lemma held_released:
  "i < length ws \<Longrightarrow> ws ! i = Got x \<Longrightarrow> held w = {#} \<Longrightarrow>
     sum_list (map held ws) = add_mset x (sum_list (map held (ws[i := w])))"
  using held_update [of i ws w] by simp

lemma tally_le: "tally P ws \<le> length ws"
  by (induction ws) (simp_all add: tally_def)

lemma tally_full: "tally P ws = length ws \<longleftrightarrow> list_all P ws"
proof (induction ws)
  case Nil
  then show ?case by (simp add: tally_def)
next
  case (Cons a ws)
  have "tally P ws \<le> length ws" by (rule tally_le)
  with Cons show ?case by (auto simp: tally_def)
qed

lemma tally_zero: "tally P ws = 0 \<longleftrightarrow> list_all (\<lambda>w. \<not> P w) ws"
  by (induction ws) (simp_all add: tally_def)

lemma fire_elim [consumes 1, case_names put_candidate candidates_done put_flag
    flags_done collect count count_last get body]:
  assumes "fire a s = Some s'"
  obtains
    (put_candidate) c rest where "coordinator s = PutCandidates (c # rest)"
      "s' = s\<lparr>possible_primes_queue := possible_primes_queue s @ [Num c],
               put_history := put_history s @ [Num c],
               coordinator := PutCandidates rest\<rparr>"
  | (candidates_done) "coordinator s = PutCandidates []"
      "s' = s\<lparr>coordinator := PutFlags (NBR_PROCESSES s)\<rparr>"
  | (put_flag) k where "coordinator s = PutFlags (Suc k)"
      "s' = s\<lparr>possible_primes_queue := possible_primes_queue s @ [FLAG_ALL_DONE],
               put_history := put_history s @ [FLAG_ALL_DONE],
               coordinator := PutFlags k\<rparr>"
  | (flags_done) "coordinator s = PutFlags 0"
      "s' = s\<lparr>processors_indicating_they_have_finished := 0, coordinator := Draining\<rparr>"
  | (collect) x rest where "coordinator s = Draining" "definite_primes_queue s = x # rest"
      "x \<noteq> FLAG_WORKER_FINISHED_PROCESSING"
      "s' = s\<lparr>definite_primes_queue := rest, primes := primes s @ [x]\<rparr>"
  | (count) rest where "coordinator s = Draining"
      "definite_primes_queue s = FLAG_WORKER_FINISHED_PROCESSING # rest"
      "processors_indicating_they_have_finished s + 1 \<noteq> NBR_PROCESSES s"
      "s' = s\<lparr>definite_primes_queue := rest,
               processors_indicating_they_have_finished :=
                 processors_indicating_they_have_finished s + 1\<rparr>"
  | (count_last) rest where "coordinator s = Draining"
      "definite_primes_queue s = FLAG_WORKER_FINISHED_PROCESSING # rest"
      "processors_indicating_they_have_finished s + 1 = NBR_PROCESSES s"
      "s' = s\<lparr>definite_primes_queue := rest,
               processors_indicating_they_have_finished :=
                 processors_indicating_they_have_finished s + 1,
               coordinator := Complete\<rparr>"
  | (get) i x rest where "a = WorkerGet i" "i < length (workers s)" "workers s ! i = Waiting"
      "possible_primes_queue s = x # rest"
      "s' = s\<lparr>possible_primes_queue := rest, workers := (workers s)[i := Got x]\<rparr>"
  | (body) i x where "a = WorkerRun i" "i < length (workers s)" "workers s ! i = Got x"
      "s' = s\<lparr>definite_primes_queue := definite_primes_queue s @ fst (worker_body x),
               workers := (workers s)[i := snd (worker_body x)]\<rparr>"
proof (cases a)
  case Coordinator
  with assms have "coordinator_step s = Some s'" by simp
  then show thesis
    by (cases rule: coordinator_step_elim) (fact that(1-7))+
next
  case (WorkerGet i)
  with assms have "fire (WorkerGet i) s = Some s'" by simp
  then show thesis
    by (cases rule: worker_get_elim) (rule that(8) [OF WorkerGet])
next
  case (WorkerRun i)
  with assms have "fire (WorkerRun i) s = Some s'" by simp
  then show thesis
    by (cases rule: worker_run_elim) (rule that(9) [OF WorkerRun])
qed

subsection \<open>Every step keeps the invariant\<close>

lemma shape_inv_fire: "shape_inv W s \<Longrightarrow> fire a s = Some s' \<Longrightarrow> shape_inv W s'"
  by (erule fire_elim) (simp_all add: shape_inv_def)

lemma history_inv_fire:
  assumes "shape_inv W s" "history_inv lo hi W s" "fire a s = Some s'"
  shows "history_inv lo hi W s'"
  using assms(3)
proof (cases rule: fire_elim)
  case (get i x rest)
  with assms(2) show ?thesis
    by (auto simp: history_inv_def dest: suffix_ConsD)
qed (use assms(1,2) in \<open>auto simp: history_inv_def shape_inv_def\<close>)

lemma phase_inv_fire:
  assumes "shape_inv W s" "phase_inv W s" "fire a s = Some s'"
  shows "phase_inv W s'"
  using assms(3)
  by (cases rule: fire_elim) (use assms(1,2) in \<open>auto simp: phase_inv_def shape_inv_def split: cphase.splits\<close>)

lemma outputs_empty: "outputs {#} = {#}"
  by (simp add: outputs_def)

lemma outputs_add_mset: "outputs (add_mset x M) = mset (fst (worker_body x)) + outputs M"
  by (simp add: outputs_def)

lemma outputs_union: "outputs (A + B) = outputs A + outputs B"
  by (simp add: outputs_def)

lemma held_body: "held (snd (worker_body x)) = {#}"
  by (cases x rule: worker_body_elim) simp_all

lemma terminated_body: "terminated (snd (worker_body x)) \<longleftrightarrow> x = FLAG_ALL_DONE"
  by (cases x rule: worker_body_elim) (simp_all add: terminated_def FLAG_ALL_DONE_def)

lemma holding_body: "\<not> holding (snd (worker_body x))"
  by (cases x rule: worker_body_elim) (simp_all add: holding_def)

lemma tally_less: "i < length ws \<Longrightarrow> \<not> P (ws ! i) \<Longrightarrow> tally P ws < length ws"
proof -
  assume a: "i < length ws" "\<not> P (ws ! i)"
  have "tally P ws \<noteq> length ws"
  proof
    assume "tally P ws = length ws"
    then have "list_all P ws" by (simp add: tally_full)
    with a show False by (simp add: list_all_length)
  qed
  with tally_le [of P ws] show ?thesis by simp
qed

lemma quiet_step:
  assumes "phase_inv W s" "fire a s = Some s'" "\<forall>i. a \<noteq> WorkerRun i"
  shows "emitted s' = emitted s \<and> unprocessed s' = unprocessed s
    \<and> tally terminated (workers s') = tally terminated (workers s)
    \<and> tally crashed (workers s') = tally crashed (workers s)"
  using assms(2)
proof (cases rule: fire_elim)
  case (get i x rest)
  then show ?thesis
    by (simp add: emitted_def unprocessed_def held_got tally_enter terminated_def crashed_def)
next
  case (body i x)
  with assms(3) show ?thesis by simp
next
  case flags_done
  with assms(1) show ?thesis
    by (simp add: emitted_def unprocessed_def phase_inv_def)
next
  case (count_last rest)
  from count_last(1,2,4) show ?thesis
    by (simp add: emitted_def unprocessed_def)
qed (simp_all add: emitted_def unprocessed_def)

lemma body_step:
  assumes "fire (WorkerRun i) s = Some s'"
  obtains x where "i < length (workers s)" "workers s ! i = Got x"
    "unprocessed s = add_mset x (unprocessed s')"
    "emitted s' = emitted s + mset (fst (worker_body x))"
    "definite_primes_queue s' = definite_primes_queue s @ fst (worker_body x)"
    "tally terminated (workers s') =
       tally terminated (workers s) + (if x = FLAG_ALL_DONE then 1 else 0)"
    "tally crashed (workers s') = tally crashed (workers s) + (if crashing x then 1 else 0)"
  using assms
proof (cases rule: worker_run_elim)
  case (body x)
  have nt: "\<not> terminated (workers s ! i)" "\<not> crashed (workers s ! i)"
    using body(2) by (simp_all add: terminated_def crashed_def)
  have "unprocessed s = add_mset x (unprocessed s')"
    using body by (simp add: unprocessed_def held_released [of i "workers s" x] held_body)
  moreover have "emitted s' = emitted s + mset (fst (worker_body x))"
    using body by (simp add: emitted_def)
  moreover have "definite_primes_queue s' = definite_primes_queue s @ fst (worker_body x)"
    using body by simp
  moreover have "tally terminated (workers s') =
       tally terminated (workers s) + (if x = FLAG_ALL_DONE then 1 else 0)"
    using body nt by (simp add: tally_enter terminated_body)
  moreover have "tally crashed (workers s') =
       tally crashed (workers s) + (if crashing x then 1 else 0)"
    using body nt by (simp add: tally_enter crashing_def)
  ultimately show thesis using that body(1,2) by blast
qed

lemma output_inv_fire:
  assumes "phase_inv W s" "output_inv lo hi W s" "fire a s = Some s'"
  shows "output_inv lo hi W s'"
proof (cases "\<forall>i. a \<noteq> WorkerRun i")
  case True
  from quiet_step [OF assms(1,3) True] assms(2) show ?thesis
    by (simp add: output_inv_def)
next
  case False
  then obtain i where "a = WorkerRun i" by blast
  with assms(3) have "fire (WorkerRun i) s = Some s'" by simp
  then show ?thesis
  proof (cases rule: body_step)
    case (1 x)
    with assms(2) show ?thesis
      by (simp add: output_inv_def outputs_add_mset ac_simps)
  qed
qed

lemma flag_inv_fire:
  assumes "phase_inv W s" "flag_inv W s" "fire a s = Some s'"
  shows "flag_inv W s'"
proof (cases "\<forall>i. a \<noteq> WorkerRun i")
  case True
  from quiet_step [OF assms(1,3) True] assms(2) show ?thesis
    by (simp add: flag_inv_def)
next
  case False
  then obtain i where "a = WorkerRun i" by blast
  with assms(3) have "fire (WorkerRun i) s = Some s'" by simp
  then show ?thesis
  proof (cases rule: body_step)
    case (1 x)
    with assms(2) show ?thesis
      by (auto simp: flag_inv_def)
  qed
qed

lemma crash_inv_fire:
  assumes "phase_inv W s" "crash_inv lo hi W s" "fire a s = Some s'"
  shows "crash_inv lo hi W s'"
proof (cases "\<forall>i. a \<noteq> WorkerRun i")
  case True
  from quiet_step [OF assms(1,3) True] assms(2) show ?thesis
    by (simp add: crash_inv_def)
next
  case False
  then obtain i where "a = WorkerRun i" by blast
  with assms(3) have "fire (WorkerRun i) s = Some s'" by simp
  then show ?thesis
  proof (cases rule: body_step)
    case (1 x)
    with assms(2) show ?thesis
      by (auto simp: crash_inv_def)
  qed
qed

lemma tail_inv_fire:
  assumes "shape_inv W s" "phase_inv W s" "tail_inv W s" "fire a s = Some s'"
  shows "tail_inv W s'"
proof (cases "\<forall>i. a \<noteq> WorkerRun i")
  case True
  from quiet_step [OF assms(2,4) True]
  have t: "tally terminated (workers s') = tally terminated (workers s)" by simp
  from assms(4) show ?thesis
  proof (cases rule: fire_elim)
    case (body i x)
    with True show ?thesis by simp
  qed (use assms(3) t in \<open>auto simp: tail_inv_def split: if_splits\<close>)
next
  case False
  then obtain i where "a = WorkerRun i" by blast
  with assms(4) have "fire (WorkerRun i) s = Some s'" by simp
  then show ?thesis
  proof (cases rule: body_step)
    case (1 x)
    show ?thesis
    proof (cases "x = FLAG_ALL_DONE")
      case True
      with 1(5) show ?thesis by (simp add: tail_inv_def worker_body_flag)
    next
      case False
      from 1(1,2) have "tally terminated (workers s) < length (workers s)"
        by (intro tally_less [of i]) (simp_all add: terminated_def)
      with False 1(6) assms(1) show ?thesis by (simp add: tail_inv_def shape_inv_def)
    qed
  qed
qed

lemma held_replicate_waiting: "sum_list (replicate n ({#} :: pyobj multiset)) = {#}"
  by (induction n) simp_all

lemma tally_replicate_waiting:
  "\<not> P Waiting \<Longrightarrow> tally P (replicate n Waiting) = 0"
  by (induction n) (simp_all add: tally_def)

lemma count_plan_flag: "count (mset (plan lo hi W)) FLAG_ALL_DONE = W"
proof -
  have "FLAG_ALL_DONE \<notin> set (map Num (number_range lo hi))"
    by (auto simp: FLAG_ALL_DONE_def)
  then have "count (mset (map Num (number_range lo hi))) FLAG_ALL_DONE = 0"
    by (simp only: count_mset_0_iff not_False_eq_True)
  then show ?thesis by (simp add: plan_def)
qed

lemma pipeline_inv_start:
  assumes "start_pipeline lo hi nbr = Inr s0"
  shows "pipeline_inv lo hi (nat nbr) s0"
proof -
  from assms have nbr: "1 \<le> nbr" by (simp add: start_pipeline_def split: if_splits)
  from assms nbr have s0:
    "s0 = \<lparr> possible_primes_queue = [], definite_primes_queue = [],
            workers = replicate (nat nbr) Waiting,
            coordinator = PutCandidates (number_range lo hi),
            processors_indicating_they_have_finished = 0, primes = [],
            NBR_PROCESSES = nat nbr, put_history = [] \<rparr>"
    by (simp add: start_pipeline_def)
  have u: "unprocessed s0 = mset (plan lo hi (nat nbr))"
    by (simp add: s0 unprocessed_def held_replicate_waiting plan_def)
  have e: "emitted s0 = {#}"
    by (simp add: s0 emitted_def)
  have t: "tally terminated (workers s0) = 0" "tally crashed (workers s0) = 0"
    by (simp_all add: s0 tally_replicate_waiting terminated_def crashed_def)
  have "shape_inv (nat nbr) s0"
    using nbr by (simp add: s0 shape_inv_def)
  moreover have "history_inv lo hi (nat nbr) s0"
    by (simp add: s0 history_inv_def plan_def)
  moreover have "phase_inv (nat nbr) s0"
    by (simp add: s0 phase_inv_def)
  moreover have "output_inv lo hi (nat nbr) s0"
    by (simp add: output_inv_def u e)
  moreover have "flag_inv (nat nbr) s0"
    by (simp add: flag_inv_def u t count_plan_flag)
  moreover have "crash_inv lo hi (nat nbr) s0"
    by (simp add: crash_inv_def u t)
  moreover have "tail_inv (nat nbr) s0"
    using nbr by (simp add: tail_inv_def t)
  ultimately show ?thesis by (simp add: pipeline_inv_def)
qed

lemma pipeline_inv_fire:
  assumes "pipeline_inv lo hi W s" "fire a s = Some s'"
  shows "pipeline_inv lo hi W s'"
proof -
  from assms(1) have i: "shape_inv W s" "history_inv lo hi W s" "phase_inv W s"
    "output_inv lo hi W s" "flag_inv W s" "crash_inv lo hi W s" "tail_inv W s"
    by (simp_all add: pipeline_inv_def)
  note f = assms(2)
  show ?thesis
    unfolding pipeline_inv_def
    by (intro conjI shape_inv_fire [OF i(1) f] history_inv_fire [OF i(1,2) f]
        phase_inv_fire [OF i(1,3) f] output_inv_fire [OF i(3,4) f] flag_inv_fire [OF i(3,5) f]
        crash_inv_fire [OF i(3,6) f] tail_inv_fire [OF i(1,3,7) f])
qed

lemma pipeline_inv_run:
  "pipeline_inv lo hi W s \<Longrightarrow> run as s = Some s' \<Longrightarrow> pipeline_inv lo hi W s'"
proof (induction as arbitrary: s)
  case Nil
  then show ?case by simp
next
  case (Cons a as)
  from Cons.prems(2) obtain s1 where s1: "fire a s = Some s1" "run as s1 = Some s'"
    by (auto split: option.splits)
  from pipeline_inv_fire [OF Cons.prems(1) s1(1)] s1(2) show ?case
    by (rule Cons.IH)
qed

lemma reachable_inv:
  "start_pipeline lo hi nbr = Inr s0 \<Longrightarrow> run as s0 = Some s \<Longrightarrow> pipeline_inv lo hi (nat nbr) s"
  by (rule pipeline_inv_run [OF pipeline_inv_start])

subsection \<open>Every schedule is finite\<close>

lemma body_output_length: "length (fst (worker_body x)) \<le> 1"
  by (cases x rule: worker_body_elim) simp_all

lemma steps_left_fire:
  assumes "fire a s = Some s'"
  shows "steps_left s' < steps_left s"
  using assms
proof (cases rule: fire_elim)
  case (get i x rest)
  then show ?thesis
    by (simp add: steps_left_def tally_enter holding_def)
next
  case (body i x)
  have "tally holding (workers s) = tally holding ((workers s)[i := snd (worker_body x)]) + 1"
    using body(2,3) by (intro tally_leave) (simp_all add: holding_body, simp add: holding_def)
  with body body_output_length [of x] show ?thesis
    by (simp add: steps_left_def)
qed (simp_all add: steps_left_def)

lemma run_bound: "run as s = Some s' \<Longrightarrow> length as + steps_left s' \<le> steps_left s"
proof (induction as arbitrary: s)
  case Nil
  then show ?case by simp
next
  case (Cons a as)
  from Cons.prems obtain s1 where s1: "fire a s = Some s1" "run as s1 = Some s'"
    by (auto split: option.splits)
  from Cons.IH [OF s1(2)] steps_left_fire [OF s1(1)] show ?case by simp
qed

lemma exists_quiescent: "\<exists>as s'. run as s = Some s' \<and> quiescent s'"
proof (induction "steps_left s" arbitrary: s rule: less_induct)
  case less
  show ?case
  proof (cases "quiescent s")
    case True
    then have "run [] s = Some s \<and> quiescent s" by simp
    then show ?thesis by blast
  next
    case False
    then obtain a s1 where a: "fire a s = Some s1"
      by (auto simp: quiescent_def list_all_iff)
    from less [OF steps_left_fire [OF a]] obtain as s' where
      "run as s1 = Some s'" "quiescent s'" by blast
    with a have "run (a # as) s = Some s' \<and> quiescent s'" by simp
    then show ?thesis by blast
  qed
qed

subsection \<open>When the cell has ended\<close>

lemma count_body_flag:
  "count (mset (fst (worker_body x))) FLAG_WORKER_FINISHED_PROCESSING
     = (if x = FLAG_ALL_DONE then 1 else 0)"
  by (cases x rule: worker_body_elim)
    (simp_all add: FLAG_ALL_DONE_def FLAG_WORKER_FINISHED_PROCESSING_def)

lemma count_outputs_flag:
  "count (outputs M) FLAG_WORKER_FINISHED_PROCESSING = count M FLAG_ALL_DONE"
  by (induction M) (simp_all add: outputs_empty outputs_add_mset count_body_flag)

lemma flag_balance:
  assumes "pipeline_inv lo hi W s"
  shows "processors_indicating_they_have_finished s
           + count (mset (definite_primes_queue s)) FLAG_WORKER_FINISHED_PROCESSING
           + count (unprocessed s) FLAG_ALL_DONE = W"
proof -
  from assms have o: "emitted s + outputs (unprocessed s) = outputs (mset (plan lo hi W))"
    and p: "FLAG_WORKER_FINISHED_PROCESSING \<notin> set (primes s)"
    by (simp_all add: pipeline_inv_def output_inv_def phase_inv_def)
  from p have c0: "count (mset (primes s)) FLAG_WORKER_FINISHED_PROCESSING = 0"
    by (simp only: count_mset_0_iff not_False_eq_True)
  have "count (emitted s + outputs (unprocessed s)) FLAG_WORKER_FINISHED_PROCESSING
          = count (outputs (mset (plan lo hi W))) FLAG_WORKER_FINISHED_PROCESSING"
    by (simp only: o)
  then show ?thesis
    by (simp add: emitted_def c0 count_outputs_flag count_plan_flag)
qed

lemma held_none: "list_all (\<lambda>w. \<not> holding w) ws \<Longrightarrow> sum_list (map held ws) = {#}"
proof (induction ws)
  case Nil
  then show ?case by simp
next
  case (Cons w ws)
  then show ?case by (cases w) (simp_all add: holding_def)
qed

lemma suffix_plan_no_flag:
  assumes "suffix q (plan lo hi W)" "1 \<le> W" "FLAG_ALL_DONE \<notin> set q"
  shows "q = []"
proof (rule ccontr)
  assume ne: "q \<noteq> []"
  from assms(1) obtain zs where "plan lo hi W = zs @ q" by (auto simp: suffix_def)
  with ne have "last (plan lo hi W) = last q" by simp
  moreover from assms(2) have "last (plan lo hi W) = FLAG_ALL_DONE"
    by (cases W) (simp_all add: plan_def)
  ultimately have "FLAG_ALL_DONE \<in> set q" using ne last_in_set [of q] by simp
  with assms(3) show False by simp
qed

lemma outputs_flags: "outputs (replicate_mset n FLAG_ALL_DONE)
    = replicate_mset n FLAG_WORKER_FINISHED_PROCESSING"
  by (induction n) (simp_all add: outputs_empty outputs_add_mset worker_body_flag)

lemma outputs_candidates:
  "outputs (mset (map Num cs)) = mset (map Num (filter (\<lambda>c. check_prime c = Inr True) cs))"
  by (induction cs)
    (auto simp: outputs_empty outputs_add_mset worker_body_num split: sum.splits)

lemma crashing_num: "crashing (Num c) \<longleftrightarrow> (\<exists>e. check_prime c = Inl e)"
  by (auto simp: crashing_def worker_body_num crashed_def split: sum.splits)

lemma crashing_flag: "\<not> crashing FLAG_ALL_DONE"
  by (simp add: crashing_def worker_body_flag crashed_def)

lemma serial_primes_filter:
  "\<forall>c\<in>set cs. \<not> crashing (Num c) \<Longrightarrow>
     serial_primes acc cs = Inr (acc @ filter (\<lambda>c. check_prime c = Inr True) cs)"
proof (induction cs arbitrary: acc)
  case Nil
  then show ?case by simp
next
  case (Cons c cs)
  from Cons.prems obtain b where b: "check_prime c = Inr b"
    by (cases "check_prime c") (auto simp: crashing_num)
  from Cons.prems have "\<forall>c\<in>set cs. \<not> crashing (Num c)" by simp
  from Cons.IH [OF this] b show ?case by (cases b) simp_all
qed

lemma no_crashing_plan:
  assumes "filter_mset crashing (mset (plan lo hi W)) = {#}"
  shows "\<forall>c\<in>set (number_range lo hi). \<not> crashing (Num c)"
proof
  fix c assume c: "c \<in> set (number_range lo hi)"
  from assms have "\<forall>x. x \<in># mset (plan lo hi W) \<longrightarrow> \<not> crashing x"
    by (simp only: filter_mset_eq_mempty_iff)
  then have "Num c \<in># mset (plan lo hi W) \<longrightarrow> \<not> crashing (Num c)" by (rule spec)
  with c show "\<not> crashing (Num c)" by (simp add: plan_def)
qed

lemma terminated_not_other:
  "list_all terminated ws \<Longrightarrow> list_all (\<lambda>w. \<not> holding w) ws \<and> tally crashed ws = 0"
  by (induction ws) (simp_all add: terminated_def holding_def crashed_def tally_def)

lemma complete_facts:
  assumes inv: "pipeline_inv lo hi W s" and c: "coordinator s = Complete"
  shows "processors_indicating_they_have_finished s = W"
    and "definite_primes_queue s = []"
    and "possible_primes_queue s = []"
    and "list_all terminated (workers s)"
    and "put_history s = plan lo hi W"
    and "mset (primes s) = outputs (mset (map Num (number_range lo hi)))"
    and "filter_mset crashing (mset (plan lo hi W)) = {#}"
proof -
  from inv have sh: "1 \<le> W" "length (workers s) = W" "NBR_PROCESSES s = W"
    by (simp_all add: pipeline_inv_def shape_inv_def)
  from inv c show fin: "processors_indicating_they_have_finished s = W"
    by (simp add: pipeline_inv_def phase_inv_def)
  from flag_balance [OF inv] fin
  have dq0: "count (mset (definite_primes_queue s)) FLAG_WORKER_FINISHED_PROCESSING = 0"
    and u0: "count (unprocessed s) FLAG_ALL_DONE = 0"
    by simp_all
  from inv u0 have t: "tally terminated (workers s) = W"
    by (simp add: pipeline_inv_def flag_inv_def)
  with sh(2) show tm: "list_all terminated (workers s)"
    by (simp add: tally_full [symmetric])
  from dq0 have nf: "FLAG_WORKER_FINISHED_PROCESSING \<notin> set (definite_primes_queue s)"
    by (simp only: count_mset_0_iff) simp
  show dq: "definite_primes_queue s = []"
  proof (rule ccontr)
    assume ne: "definite_primes_queue s \<noteq> []"
    with inv t have "last (definite_primes_queue s) = FLAG_WORKER_FINISHED_PROCESSING"
      by (simp add: pipeline_inv_def tail_inv_def)
    with last_in_set [OF ne] nf show False by simp
  qed
  from inv c show h: "put_history s = plan lo hi W"
    by (simp add: pipeline_inv_def history_inv_def)
  from u0 have "count (mset (possible_primes_queue s)) FLAG_ALL_DONE = 0"
    by (simp add: unprocessed_def)
  then have "FLAG_ALL_DONE \<notin> set (possible_primes_queue s)"
    by (simp only: count_mset_0_iff) simp
  moreover from inv h have "suffix (possible_primes_queue s) (plan lo hi W)"
    by (simp add: pipeline_inv_def history_inv_def)
  ultimately show pq: "possible_primes_queue s = []"
    using sh(1) by (intro suffix_plan_no_flag [of _ lo hi W]) simp_all
  from terminated_not_other [OF tm]
  have hn: "sum_list (map held (workers s)) = {#}" and cr: "tally crashed (workers s) = 0"
    by (simp_all add: held_none)
  have u: "unprocessed s = {#}"
    by (simp add: unprocessed_def hn pq c)
  from inv have "emitted s + outputs (unprocessed s) = outputs (mset (plan lo hi W))"
    by (simp add: pipeline_inv_def output_inv_def)
  then have "mset (primes s) + replicate_mset W FLAG_WORKER_FINISHED_PROCESSING
      = outputs (mset (map Num (number_range lo hi))) + replicate_mset W FLAG_WORKER_FINISHED_PROCESSING"
    by (simp add: u outputs_empty emitted_def fin dq plan_def outputs_union outputs_flags)
  then show "mset (primes s) = outputs (mset (map Num (number_range lo hi)))"
    by simp
  from inv have "size (filter_mset crashing (unprocessed s)) + tally crashed (workers s)
        = size (filter_mset crashing (mset (plan lo hi W)))"
    by (simp add: pipeline_inv_def crash_inv_def)
  then show "filter_mset crashing (mset (plan lo hi W)) = {#}"
    by (simp add: u cr)
qed

lemma complete_primes:
  assumes "pipeline_inv lo hi W s" "coordinator s = Complete"
  shows "serial_primes [] (number_range lo hi)
           = Inr (filter (\<lambda>c. check_prime c = Inr True) (number_range lo hi))"
    and "mset (primes s)
           = mset (map Num (filter (\<lambda>c. check_prime c = Inr True) (number_range lo hi)))"
proof -
  from no_crashing_plan [OF complete_facts(7) [OF assms]]
  show "serial_primes [] (number_range lo hi)
           = Inr (filter (\<lambda>c. check_prime c = Inr True) (number_range lo hi))"
    by (simp add: serial_primes_filter)
  from complete_facts(6) [OF assms]
  show "mset (primes s)
           = mset (map Num (filter (\<lambda>c. check_prime c = Inr True) (number_range lo hi)))"
    by (simp only: outputs_candidates)
qed

subsection \<open>No deadlock\<close>

lemma quiescentD:
  assumes "quiescent s"
  shows "coordinator_step s = None"
    and "i < length (workers s) \<Longrightarrow> fire (WorkerGet i) s = None"
    and "i < length (workers s) \<Longrightarrow> fire (WorkerRun i) s = None"
proof -
  from assms have a: "\<forall>a\<in>set (all_actions s). fire a s = None"
    by (simp add: quiescent_def list_all_iff)
  have "Coordinator \<in> set (all_actions s)" by (simp add: all_actions_def)
  with a have "fire Coordinator s = None" by (rule bspec)
  then show "coordinator_step s = None" by simp
  {
    assume i: "i < length (workers s)"
    then have "WorkerGet i \<in> set (all_actions s)" by (simp add: all_actions_def)
    with a show "fire (WorkerGet i) s = None" by (rule bspec)
    from i have "WorkerRun i \<in> set (all_actions s)" by (simp add: all_actions_def)
    with a show "fire (WorkerRun i) s = None" by (rule bspec)
  }
qed

lemma quiescent_complete:
  assumes inv: "pipeline_inv lo hi W s" and q: "quiescent s"
    and nc: "list_all (\<lambda>w. \<not> crashed w) (workers s)"
  shows "coordinator s = Complete"
proof (rule ccontr)
  assume nco: "coordinator s \<noteq> Complete"
  from inv have sh: "1 \<le> W" "length (workers s) = W" "NBR_PROCESSES s = W"
    by (simp_all add: pipeline_inv_def shape_inv_def)
  from inv have ph: "phase_inv W s" by (simp add: pipeline_inv_def)
  from quiescentD(1) [OF q] nco ph
  have d: "coordinator s = Draining" "definite_primes_queue s = []"
    by (auto simp: coordinator_step_def phase_inv_def Let_def
        split: cphase.splits list.splits nat.splits if_splits)
  from ph d have lt: "processors_indicating_they_have_finished s < W"
    by (simp add: phase_inv_def)
  have nh: "\<not> holding (workers s ! i)" if "i < length (workers s)" for i
    using quiescentD(3) [OF q that] that
    by (auto simp: holding_def split: wstate.splits)
  then have "list_all (\<lambda>w. \<not> holding w) (workers s)"
    by (simp add: list_all_length)
  then have hn: "sum_list (map held (workers s)) = {#}" by (rule held_none)
  from flag_balance [OF inv] d lt have pos: "FLAG_ALL_DONE \<in># unprocessed s"
    by (cases "FLAG_ALL_DONE \<in># unprocessed s") (simp_all add: not_in_iff)
  then have pq: "possible_primes_queue s \<noteq> []"
    by (auto simp: unprocessed_def hn d)
  have "terminated (workers s ! i)" if i: "i < length (workers s)" for i
  proof (cases "workers s ! i")
    case Waiting
    with quiescentD(2) [OF q i] i pq show ?thesis
      by (auto split: list.splits)
  next
    case (Got x)
    with nh [OF i] show ?thesis by (simp add: holding_def)
  next
    case Terminated
    then show ?thesis by (simp add: terminated_def)
  next
    case (Crashed e)
    from nc i have "\<not> crashed (workers s ! i)" by (simp add: list_all_length)
    with Crashed show ?thesis by (simp add: crashed_def)
  qed
  then have "list_all terminated (workers s)" by (simp add: list_all_length)
  then have "tally terminated (workers s) = W" by (simp add: tally_full [symmetric] sh)
  with inv have "count (unprocessed s) FLAG_ALL_DONE = 0"
    by (simp add: pipeline_inv_def flag_inv_def)
  then have "FLAG_ALL_DONE \<notin># unprocessed s" by (simp only: not_in_iff)
  with pos show False by simp
qed

subsection \<open>Runs from the start\<close>

lemma pipeline_runD:
  assumes "pipeline_run lo hi nbr as = Some s"
  obtains s0 where "start_pipeline lo hi nbr = Inr s0" "run as s0 = Some s" "1 \<le> nbr"
  using assms
  by (auto simp: pipeline_run_def start_pipeline_def split: sum.splits if_splits)

lemma pipeline_run_inv:
  "pipeline_run lo hi nbr as = Some s \<Longrightarrow> pipeline_inv lo hi (nat nbr) s"
  by (erule pipeline_runD) (rule reachable_inv)





lemma check_prime_nonneg: "0 \<le> c \<Longrightarrow> \<exists>b. check_prime c = Inr b"
  by (cases "c mod 2 = 0") (auto simp: check_prime_def math_sqrt_int_def)

lemma no_crashing_nonneg:
  assumes "hi \<le> lo \<or> 0 \<le> lo"
  shows "filter_mset crashing (mset (plan lo hi W)) = {#}"
proof -
  have "\<not> crashing x" if "x \<in> set (plan lo hi W)" for x
  proof (cases "x = FLAG_ALL_DONE")
    case True
    then show ?thesis by (simp add: crashing_flag)
  next
    case False
    with that obtain c where c: "x = Num c" "lo \<le> c" "c < hi"
      by (auto simp: plan_def number_range_def)
    with assms have "0 \<le> c" by auto
    with c(1) check_prime_nonneg [of c] show ?thesis
      by (auto simp: crashing_num)
  qed
  then show ?thesis by simp
qed

lemma never_crashed:
  assumes "hi \<le> lo \<or> 0 \<le> lo" "pipeline_inv lo hi W s"
  shows "list_all (\<lambda>w. \<not> crashed w) (workers s)"
proof -
  from assms(2) have "size (filter_mset crashing (unprocessed s)) + tally crashed (workers s)
        = size (filter_mset crashing (mset (plan lo hi W)))"
    by (simp add: pipeline_inv_def crash_inv_def)
  then have "tally crashed (workers s) = 0"
    by (simp only: no_crashing_nonneg [OF assms(1)]) simp
  then show ?thesis by (simp add: tally_zero)
qed

lemma complete_run_exists:
  assumes "hi \<le> lo \<or> 0 \<le> lo" "1 \<le> nbr"
  shows "\<exists>as s. pipeline_run lo hi nbr as = Some s \<and> coordinator s = Complete"
proof -
  from assms(2) obtain s0 where s0: "start_pipeline lo hi nbr = Inr s0"
    by (simp add: start_pipeline_def)
  from exists_quiescent [of s0] obtain as s where r: "run as s0 = Some s" "quiescent s"
    by blast
  from s0 r(1) have p: "pipeline_run lo hi nbr as = Some s" by (simp add: pipeline_run_def)
  note inv = pipeline_run_inv [OF p]
  from quiescent_complete [OF inv r(2) never_crashed [OF assms(1) inv]] p
  show ?thesis by blast
qed

lemma results_unique:
  assumes "hi \<le> lo \<or> 0 \<le> lo" "1 \<le> nbr"
  shows "results lo hi nbr
    = {(Num ` set (filter (\<lambda>c. check_prime c = Inr True) (number_range lo hi)), nat nbr)}"
proof -
  have one: "(set (primes s), processors_indicating_they_have_finished s)
      = (Num ` set (filter (\<lambda>c. check_prime c = Inr True) (number_range lo hi)), nat nbr)"
    if "s \<in> complete_states lo hi nbr" for s
  proof -
    from that obtain as where "pipeline_run lo hi nbr as = Some s" "coordinator s = Complete"
      by (auto simp: complete_states_def)
    then have inv: "pipeline_inv lo hi (nat nbr) s" and c: "coordinator s = Complete"
      by (simp_all add: pipeline_run_inv)
    from complete_primes(2) [OF inv c]
    have "set_mset (mset (primes s))
        = set_mset (mset (map Num (filter (\<lambda>c. check_prime c = Inr True) (number_range lo hi))))"
      by (simp only:)
    with complete_facts(1) [OF inv c] show ?thesis by simp
  qed
  from complete_run_exists [OF assms] obtain as s where
    "pipeline_run lo hi nbr as = Some s" "coordinator s = Complete" by blast
  then have ne: "s \<in> complete_states lo hi nbr"
    by (auto simp: complete_states_def)
  show ?thesis
    unfolding results_def
  proof (intro equalityI subsetI)
    fix r assume "r \<in> (\<lambda>s. (set (primes s), processors_indicating_they_have_finished s))
      ` complete_states lo hi nbr"
    with one show "r \<in> {(Num ` set (filter (\<lambda>c. check_prime c = Inr True)
      (number_range lo hi)), nat nbr)}"
      by auto
  next
    fix r assume "r \<in> {(Num ` set (filter (\<lambda>c. check_prime c = Inr True)
      (number_range lo hi)), nat nbr)}"
    with one [OF ne] have "r = (set (primes s), processors_indicating_they_have_finished s)"
      by simp
    with ne show "r \<in> (\<lambda>s. (set (primes s), processors_indicating_they_have_finished s))
      ` complete_states lo hi nbr"
      by (intro image_eqI [of _ _ s])
  qed
qed

subsection \<open>Concrete runs and ranges\<close>

lemma in_turn_result:
  "pipeline_run 10 14 2 schedule_in_turn =
     Some \<lparr> possible_primes_queue = [], definite_primes_queue = [],
            workers = [Terminated, Terminated], coordinator = Complete,
            processors_indicating_they_have_finished = 2, primes = [Num 11, Num 13],
            NBR_PROCESSES = 2,
            put_history = [Num 10, Num 11, Num 12, Num 13, FLAG_ALL_DONE, FLAG_ALL_DONE] \<rparr>"
  by code_simp

lemma overtaking_result:
  "pipeline_run 10 14 2 schedule_overtaking =
     Some \<lparr> possible_primes_queue = [], definite_primes_queue = [],
            workers = [Terminated, Terminated], coordinator = Complete,
            processors_indicating_they_have_finished = 2, primes = [Num 13, Num 11],
            NBR_PROCESSES = 2,
            put_history = [Num 10, Num 11, Num 12, Num 13, FLAG_ALL_DONE, FLAG_ALL_DONE] \<rparr>"
  by code_simp

lemma queue_shape:
  assumes "map Num cs @ replicate k FLAG_ALL_DONE = xs @ q @ ys"
  shows "\<exists>cs' k'. q = map Num cs' @ replicate k' FLAG_ALL_DONE"
proof -
  have "q = drop (length xs) (take (length xs + length q) (xs @ q @ ys))" by simp
  also have "\<dots> = drop (length xs) (take (length xs + length q)
      (map Num cs @ replicate k FLAG_ALL_DONE))"
    by (simp only: assms)
  also have "\<dots> = map Num (drop (length xs) (take (length xs + length q) cs))
      @ replicate (min k (length xs + length q - length cs)
          - (length xs - min (length cs) (length xs + length q))) FLAG_ALL_DONE"
    by (simp add: take_map drop_map min.commute)
  finally show ?thesis by blast
qed

lemma accepted_2_3: "filter (\<lambda>c. check_prime c = Inr True) (number_range 2 3) = []"
  by code_simp

lemma accepted_24_28: "filter (\<lambda>c. check_prime c = Inr True) (number_range 24 28) = []"
  by code_simp

lemma accepted_10_20:
  "filter (\<lambda>c. check_prime c = Inr True) (number_range 10 20) = [11, 13, 17, 19]"
  by code_simp

lemma accepted_empty:
  "hi \<le> lo \<Longrightarrow> filter (\<lambda>c. check_prime c = Inr True) (number_range lo hi) = []"
  by (simp add: number_range_def)

lemma nonprime_range_results: "1 \<le> nbr \<Longrightarrow> results 24 28 nbr = {({}, nat nbr)}"
  by (simp add: results_unique accepted_24_28)

lemma single_worker_results:
  "0 \<le> lo \<Longrightarrow> results lo hi 1
     = {(Num ` set (filter (\<lambda>c. check_prime c = Inr True) (number_range lo hi)), 1)}"
  by (simp add: results_unique)

lemma prime_100000007: "check_prime 100000007 = Inr True"
  by code_simp

lemma prime_100000037: "check_prime 100000037 = Inr True"
  by code_simp

lemma prime_100000039: "check_prime 100000039 = Inr True"
  by code_simp

lemma prime_100000049: "check_prime 100000049 = Inr True"
  by code_simp

lemma composites_100000000:
  "check_prime 100000001 = Inr False" "check_prime 100000003 = Inr False"
  "check_prime 100000005 = Inr False" "check_prime 100000009 = Inr False"
  "check_prime 100000011 = Inr False" "check_prime 100000013 = Inr False"
  "check_prime 100000015 = Inr False" "check_prime 100000017 = Inr False"
  "check_prime 100000019 = Inr False" "check_prime 100000021 = Inr False"
  "check_prime 100000023 = Inr False" "check_prime 100000025 = Inr False"
  "check_prime 100000027 = Inr False" "check_prime 100000029 = Inr False"
  "check_prime 100000031 = Inr False" "check_prime 100000033 = Inr False"
  "check_prime 100000035 = Inr False" "check_prime 100000041 = Inr False"
  "check_prime 100000043 = Inr False" "check_prime 100000045 = Inr False"
  "check_prime 100000047 = Inr False"
  by code_simp+

lemma accepted_100000000:
  "filter (\<lambda>c. check_prime c = Inr True) (number_range 100000000 100000050)
     = [100000007, 100000037, 100000039, 100000049]"
  by (simp add: number_range_def check_prime_even prime_100000007 prime_100000037
      prime_100000039 prime_100000049 composites_100000000)

lemma results_100000000:
  "results 100000000 100000050 4
     = {({Num 100000007, Num 100000037, Num 100000039, Num 100000049}, 4)}"
  by (simp add: results_unique accepted_100000000)

section \<open>The claims\<close>





text \<open>
  C3. Under every schedule the coordinator puts the candidates of the range in ascending
  order and after them exactly one \<^verbatim>\<open>FLAG_ALL_DONE\<close> per worker: what has been put on
  \<^verbatim>\<open>possible_primes_queue\<close> so far is always a prefix of the candidates followed by
  \<open>nbr\<close> flags, it is all of it once the coordinator drains, and in the queue itself no
  flag stands before a candidate.
\<close>

theorem coordinator_put_order:
  assumes "pipeline_run lo hi nbr as = Some s"
  shows "prefix (put_history s) (map Num (number_range lo hi) @ replicate (nat nbr) FLAG_ALL_DONE)
   \<and> (coordinator s = Draining \<or> coordinator s = Complete \<longrightarrow>
        put_history s = map Num (number_range lo hi) @ replicate (nat nbr) FLAG_ALL_DONE)
   \<and> sorted_wrt (<) (number_range lo hi) \<and> set (number_range lo hi) = {lo..<hi}
   \<and> (\<exists>cs k. possible_primes_queue s = map Num cs @ replicate k FLAG_ALL_DONE)"
proof -
  from pipeline_run_inv [OF assms]
  have h: "put_history s @ pending (nat nbr) (coordinator s) = plan lo hi (nat nbr)"
    and q: "suffix (possible_primes_queue s) (put_history s)"
    by (simp_all add: pipeline_inv_def history_inv_def)
  from h have p: "prefix (put_history s) (plan lo hi (nat nbr))"
    by (metis prefixI)
  from h have d: "coordinator s = Draining \<or> coordinator s = Complete \<longrightarrow>
      put_history s = plan lo hi (nat nbr)"
    by auto
  have r: "sorted_wrt (<) (number_range lo hi)" "set (number_range lo hi) = {lo..<hi}"
    by (auto simp: number_range_def sorted_wrt_upto)
  from q p obtain xs ys where "plan lo hi (nat nbr) = xs @ possible_primes_queue s @ ys"
    by (auto simp: suffix_def prefix_def)
  then have "map Num (number_range lo hi) @ replicate (nat nbr) FLAG_ALL_DONE
      = xs @ possible_primes_queue s @ ys"
    by (simp add: plan_def)
  then have "\<exists>cs k. possible_primes_queue s = map Num cs @ replicate k FLAG_ALL_DONE"
    by (rule queue_shape)
  with p d r show ?thesis by (simp add: plan_def)
qed

theorem coordinator_put_order_witness:
  "pipeline_run 7 10 3 schedule_all_holding = Some state_all_holding
   \<and> prefix [Num 7, Num 8, Num 9, FLAG_ALL_DONE]
        (map Num (number_range 7 10) @ replicate 3 FLAG_ALL_DONE)
   \<and> pipeline_run 10 14 2 schedule_in_turn \<noteq> None
   \<and> map_option coordinator (pipeline_run 10 14 2 schedule_in_turn) = Some Complete
   \<and> map_option put_history (pipeline_run 10 14 2 schedule_in_turn)
       = Some (map Num (number_range 10 14) @ replicate 2 FLAG_ALL_DONE)"
proof -
  have r: "pipeline_run 7 10 3 schedule_all_holding = Some state_all_holding"
    by code_simp
  from coordinator_put_order [OF r]
  have a: "prefix [Num 7, Num 8, Num 9, FLAG_ALL_DONE]
        (map Num (number_range 7 10) @ replicate 3 FLAG_ALL_DONE)"
    by (simp add: state_all_holding_def)
  from coordinator_put_order [OF in_turn_result]
  have "map_option put_history (pipeline_run 10 14 2 schedule_in_turn)
       = Some (map Num (number_range 10 14) @ replicate 2 FLAG_ALL_DONE)"
    by (simp add: in_turn_result)
  with r a show ?thesis by (simp add: in_turn_result)
qed

text \<open>
  C4. The drain loop terminates and the \<^verbatim>\<open>assert\<close> holds: under no schedule can the
  pipeline take more than \<open>4 * (hi - lo + nbr) + 3\<close> steps, the failed \<^verbatim>\<open>assert\<close> is never
  reached, and when no process can move any more and no worker has died of an exception
  (so that each one has put its \<^verbatim>\<open>FLAG_WORKER_FINISHED_PROCESSING\<close>), the cell has ended
  with the counter of finished workers equal to \<^verbatim>\<open>NBR_PROCESSES\<close>. From every state that
  a schedule reaches, a schedule leads on to a state in which nothing can move.
\<close>

theorem drain_loop_terminates:
  assumes "pipeline_run lo hi nbr as = Some s"
  shows "length as \<le> 4 * (nat (hi - lo) + nat nbr) + 3
   \<and> coordinator s \<noteq> AssertionFailed
   \<and> (quiescent s \<and> list_all (\<lambda>w. \<not> crashed w) (workers s) \<longrightarrow>
        coordinator s = Complete
        \<and> processors_indicating_they_have_finished s = NBR_PROCESSES s
        \<and> NBR_PROCESSES s = nat nbr
        \<and> list_all terminated (workers s))
   \<and> (\<exists>bs t. run bs s = Some t \<and> quiescent t)"
proof -
  from assms obtain s0 where s0: "start_pipeline lo hi nbr = Inr s0" "run as s0 = Some s"
    "1 \<le> nbr"
    by (rule pipeline_runD)
  from s0(1,3) have "steps_left s0 = 4 * (nat (hi - lo) + nat nbr) + 3"
    by (auto simp: start_pipeline_def steps_left_def number_range_def tally_replicate_waiting
        holding_def)
  with run_bound [OF s0(2)] have b: "length as \<le> 4 * (nat (hi - lo) + nat nbr) + 3"
    by simp
  note inv = pipeline_run_inv [OF assms]
  from inv have n: "coordinator s \<noteq> AssertionFailed" "NBR_PROCESSES s = nat nbr"
    by (auto simp: pipeline_inv_def phase_inv_def shape_inv_def)
  have c: "coordinator s = Complete
        \<and> processors_indicating_they_have_finished s = NBR_PROCESSES s
        \<and> NBR_PROCESSES s = nat nbr
        \<and> list_all terminated (workers s)"
    if "quiescent s \<and> list_all (\<lambda>w. \<not> crashed w) (workers s)"
  proof -
    from that have "coordinator s = Complete"
      by (intro quiescent_complete [OF inv]) simp_all
    with complete_facts(1,4) [OF inv] n(2) show ?thesis by simp
  qed
  from b n(1) c exists_quiescent [of s] show ?thesis by blast
qed

theorem drain_loop_terminates_witness:
  "pipeline_run 10 14 2 schedule_in_turn \<noteq> None
   \<and> length schedule_in_turn \<le> 4 * (nat (14 - 10) + nat 2) + 3
   \<and> map_option quiescent (pipeline_run 10 14 2 schedule_in_turn) = Some True
   \<and> map_option (\<lambda>s. list_all (\<lambda>w. \<not> crashed w) (workers s))
        (pipeline_run 10 14 2 schedule_in_turn) = Some True
   \<and> map_option coordinator (pipeline_run 10 14 2 schedule_in_turn) = Some Complete
   \<and> map_option processors_indicating_they_have_finished
        (pipeline_run 10 14 2 schedule_in_turn) = Some 2"
proof -
  let ?s = "\<lparr> possible_primes_queue = [], definite_primes_queue = [],
            workers = [Terminated, Terminated], coordinator = Complete,
            processors_indicating_they_have_finished = 2, primes = [Num 11, Num 13],
            NBR_PROCESSES = 2,
            put_history = [Num 10, Num 11, Num 12, Num 13, FLAG_ALL_DONE, FLAG_ALL_DONE] \<rparr>"
  have q: "quiescent ?s" by code_simp
  have c: "list_all (\<lambda>w. \<not> crashed w) (workers ?s)" by (simp add: crashed_def)
  from drain_loop_terminates [OF in_turn_result] q c
  have "length schedule_in_turn \<le> 4 * (nat (14 - 10) + nat 2) + 3"
    "processors_indicating_they_have_finished ?s = NBR_PROCESSES ?s"
    by simp_all
  with q c show ?thesis by (simp add: in_turn_result)
qed

text \<open>
  C5. The range \<open>[2, 3)\<close>: 2 is prime, but \<open>check_prime\<close> returns \<^verbatim>\<open>False\<close> for it (it is
  even), so neither the serial loop nor the pipeline reports it: with one worker the cell
  always ends with an empty \<^verbatim>\<open>primes\<close> and one finished worker. A range of non-primes
  such as \<open>[24, 28)\<close> gives the empty result as well.
\<close>

theorem two_is_not_reported:
  "is_prime 2 \<and> check_prime 2 = Inr False
   \<and> serial_primes [] (number_range 2 3) = Inr []
   \<and> results 2 3 1 = {({}, 1)}
   \<and> results 24 28 1 = {({}, 1)}"
proof -
  have "is_prime 2" "check_prime 2 = Inr False" "serial_primes [] (number_range 2 3) = Inr []"
    by code_simp+
  moreover have "results 2 3 1 = {({}, 1)}"
    by (simp add: results_unique accepted_2_3)
  moreover have "results 24 28 1 = {({}, 1)}"
    by (simp add: nonprime_range_results)
  ultimately show ?thesis by simp
qed

text \<open>
  C6. The range \<open>[100000000, 100000050)\<close> with four workers: the cell always ends, with
  four finished workers and the four primes of the range collected, 100000049 among them.
  The range \<open>[10, 20)\<close> with two workers ends with 11, 13, 17 and 19.
\<close>

theorem scenario_results:
  "results 100000000 100000050 4
     = {({Num 100000007, Num 100000037, Num 100000039, Num 100000049}, 4)}
   \<and> results 10 20 2 = {({Num 11, Num 13, Num 17, Num 19}, 2)}"
  by (simp add: results_100000000 results_unique accepted_10_20)

text \<open>
  The set of three primes that leaves 100000049 out is not what the cell computes on
  \<open>[100000000, 100000050)\<close>.
\<close>

theorem scenario_three_primes_wrong:
  "results 100000000 100000050 4
     \<noteq> {({Num 100000007, Num 100000037, Num 100000039}, 4)}"
proof
  assume "results 100000000 100000050 4
     = {({Num 100000007, Num 100000037, Num 100000039}, 4)}"
  then have "{Num 100000007, Num 100000037, Num 100000039, Num 100000049}
      = {Num 100000007, Num 100000037, Num 100000039}"
    by (simp add: results_100000000)
  moreover have "Num 100000049 \<in> {Num 100000007, Num 100000037, Num 100000039, Num 100000049}"
    by simp
  ultimately have "Num 100000049 \<in> {Num 100000007, Num 100000037, Num 100000039}"
    by (simp only:)
  then show False by simp
qed

text \<open>
  C7. The set-up validates nothing but the number of processes: below one,
  \<^verbatim>\<open>Pool(processes=NBR_PROCESSES)\<close> raises \<^verbatim>\<open>ValueError\<close> and nothing is put on or taken
  from a queue. An empty or reversed range is not rejected: with at least one worker the
  coordinator puts no candidate and one flag per worker, and the cell always ends, with an
  empty \<^verbatim>\<open>primes\<close> and every worker counted.
\<close>

theorem malformed_input_handling:
  "(nbr < 1 \<longrightarrow> start_pipeline lo hi nbr = Inl ValueError
                \<and> (\<forall>as. pipeline_run lo hi nbr as = None))
   \<and> (1 \<le> nbr \<and> hi \<le> lo \<longrightarrow>
        results lo hi nbr = {({}, nat nbr)}
        \<and> (\<forall>as s. pipeline_run lo hi nbr as = Some s \<longrightarrow>
              prefix (put_history s) (replicate (nat nbr) FLAG_ALL_DONE)))"
proof (intro conjI impI allI)
  assume "nbr < 1"
  then show "start_pipeline lo hi nbr = Inl ValueError"
    by (simp add: start_pipeline_def)
next
  fix as assume "nbr < 1"
  then show "pipeline_run lo hi nbr as = None"
    by (simp add: pipeline_run_def start_pipeline_def)
next
  assume "1 \<le> nbr \<and> hi \<le> lo"
  then show "results lo hi nbr = {({}, nat nbr)}"
    by (simp add: results_unique accepted_empty)
next
  fix as s assume a: "1 \<le> nbr \<and> hi \<le> lo" and r: "pipeline_run lo hi nbr as = Some s"
  from pipeline_run_inv [OF r]
  have "put_history s @ pending (nat nbr) (coordinator s) = plan lo hi (nat nbr)"
    by (simp add: pipeline_inv_def history_inv_def)
  then have "prefix (put_history s) (plan lo hi (nat nbr))" by (metis prefixI)
  with a show "prefix (put_history s) (replicate (nat nbr) FLAG_ALL_DONE)"
    by (simp add: plan_def number_range_def)
qed

theorem malformed_input_handling_witness:
  "start_pipeline 10 20 0 = Inl ValueError
   \<and> pipeline_run 10 20 0 schedule_in_turn = None
   \<and> results 7 3 2 = {({}, 2)}
   \<and> pipeline_run 5 5 1 [Coordinator, Coordinator] \<noteq> None
   \<and> map_option put_history (pipeline_run 5 5 1 [Coordinator, Coordinator])
       = Some [FLAG_ALL_DONE]"
proof -
  have r: "map_option put_history (pipeline_run 5 5 1 [Coordinator, Coordinator])
       = Some [FLAG_ALL_DONE]"
    by code_simp
  then obtain s where s: "pipeline_run 5 5 1 [Coordinator, Coordinator] = Some s" by auto
  from malformed_input_handling [of 0 10 20] have a: "start_pipeline 10 20 0 = Inl ValueError"
    "pipeline_run 10 20 0 schedule_in_turn = None"
    by simp_all
  from malformed_input_handling [of 2 7 3] have b: "results 7 3 2 = {({}, 2)}" by simp
  from malformed_input_handling [of 1 5 5] s
  have "prefix (put_history s) (replicate (nat 1) FLAG_ALL_DONE)" by simp
  with a b r s show ?thesis by simp
qed

text \<open>
  The empty range \<open>[5, 5)\<close> with one worker is not rejected: the coordinator puts the
  flag, the worker takes it and reports, and the cell ends with an empty \<^verbatim>\<open>primes\<close>.
\<close>

theorem empty_range_not_rejected:
  "pipeline_run 5 5 1
     [Coordinator, Coordinator, Coordinator, WorkerGet 0, WorkerRun 0, Coordinator]
   = Some \<lparr> possible_primes_queue = [], definite_primes_queue = [],
            workers = [Terminated], coordinator = Complete,
            processors_indicating_they_have_finished = 1, primes = [],
            NBR_PROCESSES = 1, put_history = [FLAG_ALL_DONE] \<rparr>"
  by code_simp

text \<open>
  C8. Two runs on the same range with the same number of workers, under whatever two
  schedules, end with the same set of collected primes; the order of arrival may differ.
\<close>

theorem same_inputs_same_primes:
  assumes "pipeline_run lo hi nbr as1 = Some s1" and "coordinator s1 = Complete"
    and "pipeline_run lo hi nbr as2 = Some s2" and "coordinator s2 = Complete"
  shows "set (primes s1) = set (primes s2)"
proof -
  from complete_primes(2) [OF pipeline_run_inv [OF assms(1)] assms(2)]
    complete_primes(2) [OF pipeline_run_inv [OF assms(3)] assms(4)]
  have "mset (primes s1) = mset (primes s2)" by simp
  then show ?thesis by (rule mset_eq_setD)
qed

theorem same_inputs_same_primes_witness:
  "map_option primes (pipeline_run 10 14 2 schedule_in_turn) = Some [Num 11, Num 13]
   \<and> map_option primes (pipeline_run 10 14 2 schedule_overtaking) = Some [Num 13, Num 11]
   \<and> set [Num 11, Num 13] = set [Num 13, Num 11]"
proof -
  from same_inputs_same_primes [OF in_turn_result _ overtaking_result]
  have "set [Num 11, Num 13] = set [Num 13, Num 11]" by simp
  then show ?thesis by (simp add: in_turn_result overtaking_result)
qed

text \<open>
  C9. No candidate is mistaken for a flag: the worker's comparison of an integer with
  \<^verbatim>\<open>FLAG_ALL_DONE\<close> is false, so an integer never stops a worker, a worker never puts
  \<^verbatim>\<open>FLAG_WORKER_FINISHED_PROCESSING\<close> for it, and the coordinator's drain loop appends an
  integer to \<^verbatim>\<open>primes\<close> without counting a finished worker.
\<close>

theorem flags_distinct_from_candidates:
  "\<not> py_eq (Num n) FLAG_ALL_DONE
   \<and> \<not> py_eq (Num n) FLAG_WORKER_FINISHED_PROCESSING
   \<and> snd (worker_body (Num n)) \<noteq> Terminated
   \<and> FLAG_WORKER_FINISHED_PROCESSING \<notin> set (fst (worker_body (Num n)))
   \<and> coordinator_step (s\<lparr>coordinator := Draining, definite_primes_queue := Num n # rest\<rparr>)
       = Some (s\<lparr>coordinator := Draining, definite_primes_queue := rest,
                 primes := primes s @ [Num n]\<rparr>)"
proof -
  have "snd (worker_body (Num n)) \<noteq> Terminated
      \<and> FLAG_WORKER_FINISHED_PROCESSING \<notin> set (fst (worker_body (Num n)))"
    by (cases "Num n" rule: worker_body_elim)
      (simp_all add: FLAG_ALL_DONE_def FLAG_WORKER_FINISHED_PROCESSING_def)
  then show ?thesis
    by (simp add: coordinator_step_def FLAG_ALL_DONE_def FLAG_WORKER_FINISHED_PROCESSING_def)
qed



end
